theory Spec2Isabelle
  imports Main "HOL-Library.Sublist"
begin

section \<open>Python strings\<close>

text \<open>
  A Python \<open>str\<close> is modelled as a \<open>string\<close>, a list of 8-bit characters, so the
  model covers the code points below 256. \<open>s.startswith(p)\<close> is \<open>prefix p s\<close> and
  \<open>s.endswith(p)\<close> is \<open>suffix p s\<close>.
\<close>

text \<open>\<open>sub in s\<close>: some position of \<open>s\<close> starts an occurrence of \<open>sub\<close>.\<close>

fun py_in :: "string \<Rightarrow> string \<Rightarrow> bool" where
  "py_in sub [] = (sub = [])"
| "py_in sub (c # cs) = (prefix sub (c # cs) \<or> py_in sub cs)"

text \<open>
  The leftmost occurrence of \<open>sep\<close> in \<open>s\<close>: the text before it and the text after it
  (\<open>s.partition(sep)\<close>, with \<open>None\<close> when \<open>sep\<close> does not occur).
\<close>

fun find_split :: "string \<Rightarrow> string \<Rightarrow> (string \<times> string) option" where
  "find_split sep [] = (if sep = [] then Some ([], []) else None)"
| "find_split sep (c # cs) =
     (if prefix sep (c # cs) then Some ([], drop (length sep) (c # cs))
      else map_option (\<lambda>(b, a). (c # b, a)) (find_split sep cs))"

text \<open>
  \<open>s.split(sep)\<close>: the pieces between the non-overlapping occurrences of \<open>sep\<close>,
  searched from the left. Every call of the program passes a non-empty literal separator
  (for an empty one Python raises; the model returns \<open>[s]\<close>).
\<close>

function py_split :: "string \<Rightarrow> string \<Rightarrow> string list" where
  "py_split sep s =
     (if sep = [] then [s]
      else case find_split sep s of
             None \<Rightarrow> [s]
           | Some (b, a) \<Rightarrow> b # py_split sep a)"
  by pat_completeness auto
termination
proof (relation "measure (\<lambda>(sep, s). length s)")
  show "wf (measure (\<lambda>(sep, s). length s))" by simp
next
  fix sep s :: string and x2 :: "string \<times> string" and b a :: string
  assume ne: "sep \<noteq> []" and f: "find_split sep s = Some x2" and x: "(b, a) = x2"
  have len: "length b' + length sep + length a = length t"
    if "find_split sep t = Some (b', a)" for t b'
    using that
  proof (induction t arbitrary: b')
    case Nil
    then show ?case by (simp split: if_splits)
  next
    case (Cons c cs)
    show ?case
    proof (cases "prefix sep (c # cs)")
      case True
      with Cons.prems have "b' = []" and "a = drop (length sep) (c # cs)" by simp_all
      moreover from True have "length sep \<le> length (c # cs)" by (rule prefix_length_le)
      ultimately show ?thesis by simp
    next
      case False
      with Cons.prems obtain b'' where "find_split sep cs = Some (b'', a)" and "b' = c # b''"
        by auto
      with Cons.IH show ?thesis by simp
    qed
  qed
  from f x have "length b + length sep + length a = length s"
    by (simp add: len)
  with ne show "((sep, a), (sep, s)) \<in> measure (\<lambda>(sep, s). length s)"
    by (cases sep) simp_all
qed

declare py_split.simps [simp del]

text \<open>\<open>sep.join(xs)\<close>.\<close>

fun py_join :: "string \<Rightarrow> string list \<Rightarrow> string" where
  "py_join sep [] = []"
| "py_join sep [x] = x"
| "py_join sep (x # y # ys) = x @ sep @ py_join sep (y # ys)"

definition ascii_upper_chars :: string where
  "ascii_upper_chars = ''ABCDEFGHIJKLMNOPQRSTUVWXYZ''"

definition ascii_lower_chars :: string where
  "ascii_lower_chars = ''abcdefghijklmnopqrstuvwxyz''"

text \<open>Lower-casing of one character; only the ASCII capitals change.\<close>

definition ascii_lower :: "char \<Rightarrow> char" where
  "ascii_lower c =
     (case map_of (zip ascii_upper_chars ascii_lower_chars) c of
        None \<Rightarrow> c
      | Some l \<Rightarrow> l)"

section \<open>The standard library: urllib.parse (CPython 3.11)\<close>

text \<open>
  \<open>normalize_url\<close> and \<open>download_image\<close> call \<open>urlparse\<close> and \<open>urljoin\<close>. They are
  modelled from \<open>Lib/urllib/parse.py\<close>, for \<open>str\<close> arguments and \<open>allow_fragments=True\<close>.
  Exceptions are values of \<open>exn\<close>.
\<close>

datatype exn =
    ValueError
  | IndexError
  | RequestException string
  | HTTPError nat
  | OSError string

record parse_result =
  scheme :: string
  netloc :: string
  path :: string
  params :: string
  query :: string
  fragment :: string

definition uses_relative :: "string list" where
  "uses_relative = ['''', ''ftp'', ''http'', ''gopher'', ''nntp'', ''imap'',
     ''wais'', ''file'', ''https'', ''shttp'', ''mms'',
     ''prospero'', ''rtsp'', ''rtsps'', ''rtspu'', ''sftp'',
     ''svn'', ''svn+ssh'', ''ws'', ''wss'']"

definition uses_netloc :: "string list" where
  "uses_netloc = ['''', ''ftp'', ''http'', ''gopher'', ''nntp'', ''telnet'',
     ''imap'', ''wais'', ''file'', ''mms'', ''https'', ''shttp'',
     ''snews'', ''prospero'', ''rtsp'', ''rtsps'', ''rtspu'', ''rsync'',
     ''svn'', ''svn+ssh'', ''sftp'', ''nfs'', ''git'', ''git+ssh'',
     ''ws'', ''wss'']"

definition uses_params :: "string list" where
  "uses_params = ['''', ''ftp'', ''hdl'', ''prospero'', ''http'', ''imap'',
     ''https'', ''shttp'', ''rtsp'', ''rtsps'', ''rtspu'', ''sip'',
     ''sips'', ''mms'', ''sftp'', ''tel'']"

definition scheme_chars :: string where
  "scheme_chars = ascii_lower_chars @ ascii_upper_chars @ ''0123456789'' @ ''+-.''"

text \<open>\<open>_WHATWG_C0_CONTROL_OR_SPACE\<close>: the code points 0 to 32.\<close>

definition c0_control_or_space :: "char \<Rightarrow> bool" where
  "c0_control_or_space c = (of_char c \<le> (32::nat))"

text \<open>\<open>_UNSAFE_URL_BYTES_TO_REMOVE\<close>: tab, carriage return, line feed.\<close>

definition unsafe_url_bytes :: string where
  "unsafe_url_bytes = [CHR 0x09, CHR 0x0D, CHR 0x0A]"

text \<open>
  \<open>_splitparams(url)\<close>: the parameters start at the first \<open>;\<close> of the last path segment.
\<close>

definition splitparams :: "string \<Rightarrow> string \<times> string" where
  "splitparams url =
     (let seg = rev (takeWhile (\<lambda>c. c \<noteq> CHR ''/'') (rev url));
          dir = rev (dropWhile (\<lambda>c. c \<noteq> CHR ''/'') (rev url))
      in if CHR '';'' \<in> set seg
         then (dir @ takeWhile (\<lambda>c. c \<noteq> CHR '';'') seg,
               tl (dropWhile (\<lambda>c. c \<noteq> CHR '';'') seg))
         else (url, []))"

text \<open>\<open>_splitnetloc(url, 2)\<close>: the domain ends at the first of \<open>/ ? #\<close>.\<close>

definition splitnetloc :: "string \<Rightarrow> string \<times> string" where
  "splitnetloc url =
     (takeWhile (\<lambda>c. c \<notin> set ''/?#'') (drop 2 url),
      dropWhile (\<lambda>c. c \<notin> set ''/?#'') (drop 2 url))"

text \<open>
  \<open>_check_bracketed_host(hostname)\<close>. A host starting with \<open>v\<close> must match
  \<open>v[a-fA-F0-9]+\..+\<close>; any other host must be accepted by \<open>ipaddress.ip_address\<close> as an
  IPv6 address. The \<open>ipaddress\<close> module is not modelled: \<open>ip6\<close> says which strings it
  accepts as IPv6 addresses, and every result below holds for every \<open>ip6\<close>.
\<close>

definition hex_chars :: string where
  "hex_chars = ''abcdefABCDEF0123456789''"

definition check_bracketed_host :: "(string \<Rightarrow> bool) \<Rightarrow> string \<Rightarrow> bool" where
  "check_bracketed_host ip6 hostname =
     (if prefix ''v'' hostname
      then (let digits = takeWhile (\<lambda>c. c \<in> set hex_chars) (tl hostname);
                rest = dropWhile (\<lambda>c. c \<in> set hex_chars) (tl hostname)
            in digits \<noteq> [] \<and> prefix ''.'' rest \<and> tl rest \<noteq> [])
      else ip6 hostname)"

text \<open>
  \<open>urlsplit(url, scheme)\<close>, with the path in the field \<open>path\<close> and no parameters yet.
  \<open>_checknetloc\<close> raises only when the NFKC form of a non-ASCII netloc contains one of
  \<open>/ ? # @ :\<close>; no code point below 256 normalises to such a character, so it has no
  branch here.
\<close>

definition urlsplit :: "(string \<Rightarrow> bool) \<Rightarrow> string \<Rightarrow> string \<Rightarrow> exn + parse_result" where
  "urlsplit ip6 url0 scheme0 =
     (let url1 = filter (\<lambda>c. c \<notin> set unsafe_url_bytes) (dropWhile c0_control_or_space url0);
          dflt = filter (\<lambda>c. c \<notin> set unsafe_url_bytes)
                   (rev (dropWhile c0_control_or_space
                      (rev (dropWhile c0_control_or_space scheme0))));
          cand = takeWhile (\<lambda>c. c \<noteq> CHR '':'') url1;
          has_scheme = (CHR '':'' \<in> set url1 \<and> cand \<noteq> []
                        \<and> hd cand \<in> set (ascii_lower_chars @ ascii_upper_chars)
                        \<and> (\<forall>c \<in> set cand. c \<in> set scheme_chars));
          sch = (if has_scheme then map ascii_lower cand else dflt);
          url2 = (if has_scheme then drop (Suc (length cand)) url1 else url1);
          has_netloc = (take 2 url2 = ''//'');
          nl = (if has_netloc then fst (splitnetloc url2) else []);
          url3 = (if has_netloc then snd (splitnetloc url2) else url2)
      in if has_netloc \<and> ((CHR ''['' \<in> set nl \<and> CHR '']'' \<notin> set nl)
                           \<or> (CHR '']'' \<in> set nl \<and> CHR ''['' \<notin> set nl))
         then Inl ValueError
         else if has_netloc \<and> CHR ''['' \<in> set nl \<and> CHR '']'' \<in> set nl
                 \<and> \<not> check_bracketed_host ip6
                       (takeWhile (\<lambda>c. c \<noteq> CHR '']'')
                          (tl (dropWhile (\<lambda>c. c \<noteq> CHR ''['') nl)))
         then Inl ValueError
         else
           (let frag = (if CHR ''#'' \<in> set url3
                        then tl (dropWhile (\<lambda>c. c \<noteq> CHR ''#'') url3) else []);
                url4 = takeWhile (\<lambda>c. c \<noteq> CHR ''#'') url3;
                qry = (if CHR ''?'' \<in> set url4
                       then tl (dropWhile (\<lambda>c. c \<noteq> CHR ''?'') url4) else []);
                url5 = takeWhile (\<lambda>c. c \<noteq> CHR ''?'') url4
            in Inr \<lparr>scheme = sch, netloc = nl, path = url5, params = [],
                     query = qry, fragment = frag\<rparr>))"

text \<open>\<open>urlparse(url, scheme)\<close>.\<close>

definition urlparse :: "(string \<Rightarrow> bool) \<Rightarrow> string \<Rightarrow> string \<Rightarrow> exn + parse_result" where
  "urlparse ip6 url scheme0 =
     (case urlsplit ip6 url scheme0 of
        Inl e \<Rightarrow> Inl e
      | Inr r \<Rightarrow>
          if scheme r \<in> set uses_params \<and> CHR '';'' \<in> set (path r)
          then Inr (r\<lparr>path := fst (splitparams (path r)),
                      params := snd (splitparams (path r))\<rparr>)
          else Inr r)"

text \<open>\<open>urlunsplit\<close> and \<open>urlunparse\<close>, on the fields of a \<open>parse_result\<close>.\<close>

definition urlunsplit :: "string \<Rightarrow> string \<Rightarrow> string \<Rightarrow> string \<Rightarrow> string \<Rightarrow> string" where
  "urlunsplit sch nl url qry frag =
     (let url1 = (if nl \<noteq> [] \<or> (sch \<noteq> [] \<and> sch \<in> set uses_netloc) \<or> take 2 url = ''//''
                  then ''//'' @ nl @ (if url \<noteq> [] \<and> take 1 url \<noteq> ''/'' then ''/'' @ url else url)
                  else url);
          url2 = (if sch \<noteq> [] then sch @ '':'' @ url1 else url1);
          url3 = (if qry \<noteq> [] then url2 @ ''?'' @ qry else url2)
      in if frag \<noteq> [] then url3 @ ''#'' @ frag else url3)"

definition urlunparse :: "parse_result \<Rightarrow> string" where
  "urlunparse r =
     urlunsplit (scheme r) (netloc r)
       (if params r \<noteq> [] then path r @ '';'' @ params r else path r)
       (query r) (fragment r)"

text \<open>
  The loop of \<open>urljoin\<close> over the segments: \<open>..\<close> pops the last resolved segment (nothing
  to pop is ignored), \<open>.\<close> is skipped, everything else is appended.
\<close>

fun resolve_segments :: "string list \<Rightarrow> string list \<Rightarrow> string list" where
  "resolve_segments resolved [] = resolved"
| "resolve_segments resolved (seg # segs) =
     (if seg = ''..'' then resolve_segments (butlast resolved) segs
      else if seg = ''.'' then resolve_segments resolved segs
      else resolve_segments (resolved @ [seg]) segs)"

text \<open>\<open>segments[1:-1] = filter(None, segments[1:-1])\<close>.\<close>

definition filter_inner :: "string list \<Rightarrow> string list" where
  "filter_inner segs =
     (if length segs < 2 then segs
      else hd segs # filter (\<lambda>s. s \<noteq> []) (butlast (tl segs)) @ [last segs])"

definition urljoin :: "(string \<Rightarrow> bool) \<Rightarrow> string \<Rightarrow> string \<Rightarrow> exn + string" where
  "urljoin ip6 base url =
     (if base = [] then Inr url
      else if url = [] then Inr base
      else case urlparse ip6 base [] of
        Inl e \<Rightarrow> Inl e
      | Inr b \<Rightarrow>
         (case urlparse ip6 url (scheme b) of
            Inl e \<Rightarrow> Inl e
          | Inr u \<Rightarrow>
             if scheme u \<noteq> scheme b \<or> scheme u \<notin> set uses_relative then Inr url
             else if scheme u \<in> set uses_netloc \<and> netloc u \<noteq> [] then Inr (urlunparse u)
             else
               (let nl = (if scheme u \<in> set uses_netloc then netloc b else netloc u)
                in if path u = [] \<and> params u = []
                   then Inr (urlunparse (u\<lparr>netloc := nl, path := path b, params := params b,
                              query := (if query u = [] then query b else query u)\<rparr>))
                   else
                     (let parts = py_split ''/'' (path b);
                          base_parts = (if last parts \<noteq> [] then butlast parts else parts);
                          segments = (if take 1 (path u) = ''/'' then py_split ''/'' (path u)
                                      else filter_inner (base_parts @ py_split ''/'' (path u)));
                          resolved = resolve_segments [] segments;
                          resolved_path = (if last segments \<in> {''.'', ''..''}
                                           then resolved @ [[]] else resolved);
                          joined = py_join ''/'' resolved_path
                      in Inr (urlunparse (u\<lparr>netloc := nl,
                                path := (if joined = [] then ''/'' else joined)\<rparr>))))))"

section \<open>download_covers.py\<close>

text \<open>What the program prints, one constructor for each \<open>print\<close> call that is modelled.\<close>

datatype event =
    Warning_no_marker string
  | Progress nat nat string
  | Skipping string
  | Downloading string
  | Downloaded string
  | Error_downloading string exn
  | Blank_line

subsection \<open>normalize_url\<close>

definition base_url :: string where
  "base_url = ''https://gameinformer.com''"

definition marker :: string where
  "marker = ''/sites/default/files/''"

definition styles_prefix :: string where
  "styles_prefix = ''styles/no_compression/public/''"

definition canonical_prefix :: string where
  "canonical_prefix = ''https://gameinformer.com/sites/default/files/styles/no_compression/public/''"

definition image_exts :: "string list" where
  "image_exts = [''jpg'', ''jpeg'', ''png'', ''webp'']"

text \<open>
  \<open>re.sub(r'\.(jpg|jpeg|png|webp)$', '', s, flags=re.IGNORECASE)\<close>. The pattern is
  anchored by \<open>$\<close>, which matches at the end of the string and before a line feed that
  ends the string, so at most one match exists: a dot and one of the four extensions in
  any letter case, ending the string or standing before its final line feed.
\<close>

definition strip_image_ext :: "string \<Rightarrow> string" where
  "strip_image_ext s =
     (let nl = (if s \<noteq> [] \<and> last s = CHR 0x0A then [CHR 0x0A] else []);
          body = (if s \<noteq> [] \<and> last s = CHR 0x0A then butlast s else s)
      in case find (\<lambda>x. suffix (CHR ''.'' # x) (map ascii_lower body)) image_exts of
           None \<Rightarrow> s
         | Some x \<Rightarrow> take (length body - Suc (length x)) body @ nl)"

text \<open>Lines 44 to 52: the extension of the path after the marker.\<close>

definition normalize_ext :: "string \<Rightarrow> string" where
  "normalize_ext path_after =
     (if suffix ''.jpg.webp'' path_after then path_after
      else if suffix ''.webp'' path_after
           then take (length path_after - 5) path_after @ ''.jpg.webp''
      else strip_image_ext path_after @ ''.jpg.webp'')"

text \<open>Lines 37 to 41: query and fragment cut off, the styles prefix removed.\<close>

definition strip_styles :: "string \<Rightarrow> string" where
  "strip_styles path_after =
     (if prefix styles_prefix path_after
      then drop (length styles_prefix) path_after else path_after)"

definition cut_query_fragment :: "string \<Rightarrow> string" where
  "cut_query_fragment path_after = hd (py_split ''#'' (hd (py_split ''?'' path_after)))"

text \<open>Lines 21 and 22: a URL that does not start with \<open>http\<close> is joined to the base.\<close>

definition resolve :: "(string \<Rightarrow> bool) \<Rightarrow> string \<Rightarrow> exn + string" where
  "resolve ip6 url = (if \<not> prefix ''http'' url then urljoin ip6 base_url url else Inr url)"

text \<open>
  Line 34 onwards, up to line 41: the second piece of the path split at the marker
  (\<open>split(...)[1]\<close>, an \<open>IndexError\<close> if there were no such piece), then the cuts.
\<close>

definition path_after_marker :: "string \<Rightarrow> exn + string" where
  "path_after_marker p =
     (case py_split marker p of
        _ # path_after # _ \<Rightarrow> Inr (strip_styles (cut_query_fragment path_after))
      | _ \<Rightarrow> Inl IndexError)"

text \<open>
  Lines 25 to 57, on the URL that lines 21 and 22 leave in \<open>url\<close>: the printed lines and
  the returned string, or the exception that leaves the function.
\<close>

definition normalize_resolved :: "(string \<Rightarrow> bool) \<Rightarrow> string \<Rightarrow> exn + (event list \<times> string)" where
  "normalize_resolved ip6 url =
     (case urlparse ip6 url [] of
        Inl e \<Rightarrow> Inl e
      | Inr parsed \<Rightarrow>
          if \<not> py_in marker (path parsed) then Inr ([Warning_no_marker url], url)
          else (case path_after_marker (path parsed) of
                  Inl e \<Rightarrow> Inl e
                | Inr path_after \<Rightarrow> Inr ([], canonical_prefix @ normalize_ext path_after)))"

text \<open>\<open>normalize_url(url)\<close>.\<close>

definition normalize_url :: "(string \<Rightarrow> bool) \<Rightarrow> string \<Rightarrow> exn + (event list \<times> string)" where
  "normalize_url ip6 url0 =
     (case resolve ip6 url0 of
        Inl e \<Rightarrow> Inl e
      | Inr url \<Rightarrow> normalize_resolved ip6 url)"

text \<open>The path that line 28 tests: the one \<open>urlparse\<close> finds in the resolved URL.\<close>

definition parsed_path :: "(string \<Rightarrow> bool) \<Rightarrow> string \<Rightarrow> exn + string" where
  "parsed_path ip6 url0 =
     (case resolve ip6 url0 of
        Inl e \<Rightarrow> Inl e
      | Inr url \<Rightarrow> (case urlparse ip6 url [] of Inl e \<Rightarrow> Inl e | Inr parsed \<Rightarrow> Inr (path parsed)))"

subsection \<open>main: normalisation and deduplication\<close>

text \<open>Lines 132 to 135: every raw URL is normalised in turn; an exception ends the run.\<close>

fun normalize_all :: "(string \<Rightarrow> bool) \<Rightarrow> string list \<Rightarrow> exn + (event list \<times> string list)" where
  "normalize_all ip6 [] = Inr ([], [])"
| "normalize_all ip6 (url # urls) =
     (case normalize_url ip6 url of
        Inl e \<Rightarrow> Inl e
      | Inr (out, normalized) \<Rightarrow>
         (case normalize_all ip6 urls of
            Inl e \<Rightarrow> Inl e
          | Inr (outs, rest) \<Rightarrow> Inr (out @ outs, normalized # rest)))"

text \<open>Lines 138 to 143: the loop over \<open>normalized_urls\<close> with its two variables.\<close>

fun dedupe_loop :: "'a set \<Rightarrow> 'a list \<Rightarrow> 'a list \<Rightarrow> 'a list" where
  "dedupe_loop seen unique_urls [] = unique_urls"
| "dedupe_loop seen unique_urls (url # urls) =
     (if url \<notin> seen then dedupe_loop (insert url seen) (unique_urls @ [url]) urls
      else dedupe_loop seen unique_urls urls)"

definition dedupe :: "'a list \<Rightarrow> 'a list" where
  "dedupe normalized_urls = dedupe_loop {} [] normalized_urls"

subsection \<open>download_image and the download loop of main\<close>

text \<open>
  The file system and the network are outside the program. The world holds the state of
  the file system (of any type \<open>'fs\<close>), the URLs requested so far and the lines printed so
  far; the environment says what the operating system and the network answer.
\<close>

record response =
  status_code :: nat
  content :: string

record 'fs world =
  fs :: 'fs
  requests :: "string list"
  stdout :: "event list"

record 'fs env =
  path_exists :: "'fs \<Rightarrow> string \<Rightarrow> bool"
  write_file :: "'fs \<Rightarrow> string \<Rightarrow> string \<Rightarrow> exn option \<times> 'fs"
  http_get :: "string list \<Rightarrow> string \<Rightarrow> exn + response"
  is_ipv6 :: "string \<Rightarrow> bool"

text \<open>\<open>os.path.basename\<close> and \<open>os.path.join\<close> of two components (posixpath).\<close>

definition basename :: "string \<Rightarrow> string" where
  "basename p = rev (takeWhile (\<lambda>c. c \<noteq> CHR ''/'') (rev p))"

definition os_path_join :: "string \<Rightarrow> string \<Rightarrow> string" where
  "os_path_join a b =
     (if prefix ''/'' b then b
      else if a = [] \<or> suffix ''/'' a then a @ b
      else a @ ''/'' @ b)"

text \<open>
  \<open>output_dir / filename\<close> of pathlib, for a directory name without a trailing slash and
  a file name without a slash, as \<open>basename\<close> returns it: an empty name and \<open>.\<close> add
  nothing.
\<close>

definition pathlib_join :: "string \<Rightarrow> string \<Rightarrow> string" where
  "pathlib_join a b = (if b = [] \<or> b = ''.'' then a else a @ ''/'' @ b)"

definition say :: "event \<Rightarrow> 'fs world \<Rightarrow> 'fs world" where
  "say e w = w\<lparr>stdout := stdout w @ [e]\<rparr>"

text \<open>
  Lines 106 to 117, the body of the \<open>try\<close> block: the request, \<open>raise_for_status\<close> (an
  error for a status from 400 to 599), the write. The result is the exception raised, if
  any, and the world at that moment.
\<close>

definition try_body ::
  "'fs env \<Rightarrow> string \<Rightarrow> string \<Rightarrow> string \<Rightarrow> 'fs world \<Rightarrow> exn option \<times> 'fs world" where
  "try_body env url filename filepath w =
     (let w1 = (say (Downloading filename) w)\<lparr>requests := requests w @ [url]\<rparr>
      in case http_get env (requests w) url of
           Inl e \<Rightarrow> (Some e, w1)
         | Inr resp \<Rightarrow>
            if 400 \<le> status_code resp \<and> status_code resp < 600
            then (Some (HTTPError (status_code resp)), w1)
            else (case write_file env (fs w1) filepath (content resp) of
                    (Some e, fs') \<Rightarrow> (Some e, w1\<lparr>fs := fs'\<rparr>)
                  | (None, fs') \<Rightarrow> (None, say (Downloaded filename) (w1\<lparr>fs := fs'\<rparr>))))"

text \<open>
  Lines 105 to 120: the \<open>try\<close> statement. The handler catches every exception of the
  body, prints it with the file name and returns \<open>False\<close>.
\<close>

definition fetch_and_write ::
  "'fs env \<Rightarrow> string \<Rightarrow> string \<Rightarrow> string \<Rightarrow> 'fs world \<Rightarrow> bool \<times> 'fs world" where
  "fetch_and_write env url filename filepath w =
     (case try_body env url filename filepath w of
        (Some e, w') \<Rightarrow> (False, say (Error_downloading filename e) w')
      | (None, w') \<Rightarrow> (True, w'))"

text \<open>Lines 93 to 96: the file name, from the parsed URL or from the raw string.\<close>

definition filename_of :: "string \<Rightarrow> parse_result \<Rightarrow> string" where
  "filename_of url parsed =
     (if basename (path parsed) = [] then last (py_split ''/'' url)
      else basename (path parsed))"

text \<open>
  \<open>download_image(url, output_dir)\<close>. The call of \<open>urlparse\<close> in line 93 is outside the
  \<open>try\<close> block, so its exception leaves the function.
\<close>

definition download_image ::
  "'fs env \<Rightarrow> string \<Rightarrow> string \<Rightarrow> 'fs world \<Rightarrow> exn + (bool \<times> 'fs world)" where
  "download_image env url output_dir w =
     (case urlparse (is_ipv6 env) url [] of
        Inl e \<Rightarrow> Inl e
      | Inr parsed \<Rightarrow>
         (let filename = filename_of url parsed;
              filepath = os_path_join output_dir filename
          in if path_exists env (fs w) filepath
             then Inr (True, say (Skipping filename) w)
             else Inr (fetch_and_write env url filename filepath w)))"

text \<open>The counters of main and the world.\<close>

record 'fs loop_state =
  success_count :: nat
  skip_count :: nat
  world :: "'fs world"

text \<open>Lines 157 to 168: the loop over \<open>unique_urls\<close>, \<open>i\<close> counting from 1.\<close>

fun download_loop ::
  "'fs env \<Rightarrow> nat \<Rightarrow> nat \<Rightarrow> string list \<Rightarrow> 'fs loop_state \<Rightarrow> exn + 'fs loop_state" where
  "download_loop env n i [] st = Inr st"
| "download_loop env n i (url # urls) st =
     (let w0 = say (Progress i n url) (world st)
      in case urlparse (is_ipv6 env) url [] of
           Inl e \<Rightarrow> Inl e
         | Inr parsed \<Rightarrow>
            (let filename = basename (path parsed);
                 filepath = pathlib_join ''output'' filename
             in if path_exists env (fs w0) filepath
                then download_loop env n (Suc i) urls
                       (st\<lparr>skip_count := skip_count st + 1,
                           world := say (Skipping filename) w0\<rparr>)
                else (case download_image env url ''output'' w0 of
                        Inl e \<Rightarrow> Inl e
                      | Inr (ok, w1) \<Rightarrow>
                          download_loop env n (Suc i) urls
                            (st\<lparr>success_count := (if ok then success_count st + 1
                                                    else success_count st),
                                world := say Blank_line w1\<rparr>))))"

section \<open>Notions used in the statements\<close>

text \<open>
  The number of positions of \<open>s\<close> at which \<open>sub\<close> occurs (occurrences may overlap), and
  \<open>s.count(sub)\<close>, which counts occurrences that do not overlap, from the left.
\<close>

fun occurrences :: "string \<Rightarrow> string \<Rightarrow> nat" where
  "occurrences sub [] = (if sub = [] then 1 else 0)"
| "occurrences sub (c # cs) = (if prefix sub (c # cs) then 1 else 0) + occurrences sub cs"

definition py_count :: "string \<Rightarrow> string \<Rightarrow> nat" where
  "py_count sub s = length (py_split sub s) - 1"

text \<open>The path prefix of a canonical URL: the marker followed by the styles prefix.\<close>

definition prefix_path :: string where
  "prefix_path = ''/sites/default/files/styles/no_compression/public/''"

text \<open>
  A string without the characters that \<open>urlparse\<close> treats specially in a path: \<open>?\<close>,
  \<open>#\<close>, \<open>;\<close>, tab, carriage return and line feed.
\<close>

definition plain_chars :: "string \<Rightarrow> bool" where
  "plain_chars t = (\<forall>c \<in> set t. c \<notin> set ''?#;'' \<and> c \<notin> set unsafe_url_bytes)"

text \<open>A string without a square bracket.\<close>

definition bracket_free :: "string \<Rightarrow> bool" where
  "bracket_free s = (CHR ''['' \<notin> set s \<and> CHR '']'' \<notin> set s)"

text \<open>
  Concrete surroundings for the examples: an \<open>ipaddress\<close> module that accepts no host (no
  example URL has a bracketed host), and a machine that is offline, whose file system is
  the list of the paths that exist and whose writes succeed.
\<close>

definition no_ipv6 :: "string \<Rightarrow> bool" where
  "no_ipv6 hostname = False"

definition offline_env :: "string list env" where
  "offline_env =
     \<lparr>path_exists = (\<lambda>files p. p \<in> set files),
      write_file = (\<lambda>files p c. (None, p # files)),
      http_get = (\<lambda>earlier url. Inl (RequestException ''offline'')),
      is_ipv6 = no_ipv6\<rparr>"

definition cover_url :: string where
  "cover_url = ''https://gameinformer.com/sites/default/files/styles/no_compression/public/cover1.jpg.webp''"

definition cover_parsed :: parse_result where
  "cover_parsed = \<lparr>scheme = ''https'', netloc = ''gameinformer.com'',
      path = ''/sites/default/files/styles/no_compression/public/cover1.jpg.webp'',
      params = [], query = [], fragment = []\<rparr>"

section \<open>Substrings and splitting\<close>

lemma py_in_sublist: "py_in sub s = sublist sub s"
  by (induction s) (auto simp: sublist_Cons_right)

lemma py_in_single: "py_in [c] s \<longleftrightarrow> c \<in> set s"
  by (induction s) auto

lemma find_split_None: "(find_split sep s = None) = (\<not> py_in sep s)"
  by (induction s) auto

lemma find_split_Some: "find_split sep s = Some (b, a) \<Longrightarrow> s = b @ sep @ a"
proof (induction s arbitrary: b)
  case Nil
  then show ?case by (simp split: if_splits)
next
  case (Cons c cs)
  show ?case
  proof (cases "prefix sep (c # cs)")
    case True
    with Cons.prems have "b = []" and "a = drop (length sep) (c # cs)" by simp_all
    moreover from True obtain zs where "c # cs = sep @ zs" by (auto simp: prefix_def)
    ultimately show ?thesis by simp
  next
    case False
    with Cons.prems obtain b' where "find_split sep cs = Some (b', a)" and "b = c # b'"
      by auto
    with Cons.IH show ?thesis by simp
  qed
qed

text \<open>The occurrence that \<open>find_split\<close> finds is the leftmost one.\<close>

lemma find_split_leftmost:
  "find_split sep s = Some (b, a) \<Longrightarrow> sep \<noteq> [] \<Longrightarrow> \<not> py_in sep b"
proof (induction s arbitrary: b)
  case Nil
  then show ?case by (simp split: if_splits)
next
  case (Cons c cs)
  show ?case
  proof (cases "prefix sep (c # cs)")
    case True
    with Cons.prems show ?thesis by simp
  next
    case False
    with Cons.prems obtain b' where f: "find_split sep cs = Some (b', a)" and b: "b = c # b'"
      by auto
    from f have cs: "cs = b' @ sep @ a" by (rule find_split_Some)
    have "\<not> prefix sep (c # b')"
    proof
      assume "prefix sep (c # b')"
      then have "prefix sep ((c # b') @ sep @ a)" by (rule prefix_prefix)
      with cs False show False by simp
    qed
    moreover from Cons.IH [OF f Cons.prems(2)] have "\<not> py_in sep b'" .
    ultimately show ?thesis using b by simp
  qed
qed

lemma py_split_not_Nil: "py_split sep s \<noteq> []"
  by (subst py_split.simps) (simp split: option.splits)

lemma hd_py_split:
  "sep \<noteq> [] \<Longrightarrow> hd (py_split sep s) = (case find_split sep s of None \<Rightarrow> s | Some (b, a) \<Rightarrow> b)"
  by (subst py_split.simps) (simp split: option.splits)

lemma hd_py_split_free: "sep \<noteq> [] \<Longrightarrow> \<not> py_in sep (hd (py_split sep s))"
  by (auto simp: hd_py_split find_split_None split: option.splits dest: find_split_leftmost)

lemma hd_py_split_prefix: "sep \<noteq> [] \<Longrightarrow> prefix (hd (py_split sep s)) s"
  by (auto simp: hd_py_split split: option.splits dest: find_split_Some)

lemma hd_py_split_id: "\<not> py_in sep s \<Longrightarrow> hd (py_split sep s) = s"
  by (subst py_split.simps) (simp add: find_split_None [symmetric])

lemma py_split_second:
  assumes "py_in sep s" and "sep \<noteq> []"
  obtains b a rest where "find_split sep s = Some (b, a)"
    and "py_split sep s = b # hd (py_split sep a) # rest"
proof -
  from assms(1) obtain b a where f: "find_split sep s = Some (b, a)"
    using find_split_None [of sep s] by (cases "find_split sep s") auto
  then have "py_split sep s = b # py_split sep a"
    using assms(2) by (subst py_split.simps) simp
  moreover obtain x rest where "py_split sep a = x # rest"
    using py_split_not_Nil [of sep a] by (cases "py_split sep a") auto
  ultimately have "py_split sep s = b # hd (py_split sep a) # rest" by simp
  with f show ?thesis by (rule that)
qed

text \<open>
  Appending text that lacks the last character of \<open>m\<close> cannot complete an occurrence
  of \<open>m\<close>.
\<close>

lemma no_sublist_append_tail:
  assumes "\<not> sublist m y" and "m \<noteq> []" and "last m \<notin> set z"
  shows "\<not> sublist m (y @ z)"
proof
  assume "sublist m (y @ z)"
  then consider "sublist m y" | "sublist m z"
    | m1 m2 where "m = m1 @ m2" "suffix m1 y" "prefix m2 z"
    by (auto simp: sublist_append)
  then show False
  proof cases
    case 1
    with assms(1) show False by simp
  next
    case 2
    then have "set m \<subseteq> set z" by (rule set_mono_sublist)
    with assms(2,3) show False by (meson last_in_set subsetD)
  next
    case 3
    show False
    proof (cases "m2 = []")
      case True
      with 3 have "suffix m y" by simp
      then have "sublist m y" by auto
      with assms(1) show False by simp
    next
      case False
      with 3(1) have "last m = last m2" by simp
      moreover from False have "last m2 \<in> set m2" by simp
      moreover from 3(3) have "set m2 \<subseteq> set z" by (rule set_mono_prefix)
      ultimately show False using assms(3) by auto
    qed
  qed
qed

lemma suffix_same_length:
  assumes "length b = length c"
  shows "suffix (a @ b) (s @ c) \<longleftrightarrow> suffix a s \<and> b = c"
proof -
  have "s @ c = zs @ a @ b \<longleftrightarrow> s = zs @ a \<and> c = b" for zs
    using assms append_eq_append_conv [of s "zs @ a" c b] by simp
  then show ?thesis by (auto simp: suffix_def)
qed

lemma occurrences_zero:
  "\<not> sublist m s \<Longrightarrow> m \<noteq> [] \<Longrightarrow> prefix m sub \<Longrightarrow> occurrences sub s = 0"
proof (induction s)
  case Nil
  then show ?case by auto
next
  case (Cons c cs)
  from Cons.prems(1) have 1: "\<not> prefix m (c # cs)" and 2: "\<not> sublist m cs"
    by (simp_all add: sublist_Cons_right)
  from 1 Cons.prems(3) have "\<not> prefix sub (c # cs)"
    using prefix_order.order_trans by blast
  with Cons.IH [OF 2 Cons.prems(2,3)] show ?case by simp
qed

section \<open>The steps of normalize_url\<close>

lemma marker_not_Nil: "marker \<noteq> []"
  by (simp add: marker_def)

lemma cut_query_fragment_prefix: "prefix (cut_query_fragment x) x"
proof -
  have "prefix (hd (py_split ''#'' (hd (py_split ''?'' x)))) (hd (py_split ''?'' x))"
    by (rule hd_py_split_prefix) simp
  moreover have "prefix (hd (py_split ''?'' x)) x"
    by (rule hd_py_split_prefix) simp
  ultimately show ?thesis
    unfolding cut_query_fragment_def by (rule prefix_order.order_trans)
qed

lemma strip_styles_suffix: "suffix (strip_styles x) x"
  by (simp add: strip_styles_def suffix_drop)

text \<open>
  A path that contains the marker has a second piece, so line 34 raises no
  \<open>IndexError\<close>; and what lines 34 to 41 leave contains no marker, since it is cut out
  of the piece between the first marker and the next one.
\<close>

lemma path_after_marker_ok:
  assumes "py_in marker p"
  obtains r where "path_after_marker p = Inr r" and "\<not> sublist marker r"
proof -
  from assms marker_not_Nil obtain b a rest where
    sp: "py_split marker p = b # hd (py_split marker a) # rest"
    by (rule py_split_second)
  let ?x = "hd (py_split marker a)"
  let ?r = "strip_styles (cut_query_fragment ?x)"
  have "\<not> sublist marker ?x"
    using hd_py_split_free [OF marker_not_Nil, of a] by (simp add: py_in_sublist)
  moreover have "sublist ?r ?x"
  proof -
    have "sublist ?r (cut_query_fragment ?x)"
      using strip_styles_suffix by (rule suffix_imp_sublist)
    moreover have "sublist (cut_query_fragment ?x) ?x"
      using cut_query_fragment_prefix by (rule prefix_imp_sublist)
    ultimately show ?thesis by (rule sublist_order.order_trans)
  qed
  ultimately have "\<not> sublist marker ?r"
    using sublist_order.order_trans by blast
  moreover have "path_after_marker p = Inr ?r"
    by (simp add: path_after_marker_def sp)
  ultimately show ?thesis using that by blast
qed

lemma path_after_marker_Inr:
  assumes "path_after_marker p = Inr r"
  shows "py_in marker p"
proof (rule ccontr)
  assume "\<not> py_in marker p"
  then have "py_split marker p = [p]"
    by (subst py_split.simps) (simp add: find_split_None [symmetric])
  with assms show False by (simp add: path_after_marker_def)
qed

lemma normalize_url_by_path:
  assumes "parsed_path ip6 u = Inr p" and "path_after_marker p = Inr r"
  shows "normalize_url ip6 u = Inr ([], canonical_prefix @ normalize_ext r)"
proof -
  from assms(2) have m: "py_in marker p" by (rule path_after_marker_Inr)
  from assms(1) obtain url parsed where "resolve ip6 u = Inr url"
    and "urlparse ip6 url [] = Inr parsed" and "path parsed = p"
    by (auto simp: parsed_path_def split: sum.splits)
  with m assms(2) show ?thesis
    by (simp add: normalize_url_def normalize_resolved_def)
qed

subsection \<open>The extension\<close>

lemma strip_image_ext_shape:
  "strip_image_ext s = s \<or> (\<exists>k. strip_image_ext s = take k s @ [CHR 0x0A])
     \<or> (\<exists>k. strip_image_ext s = take k s)"
proof -
  have b: "take k (butlast s) = take (min k (length s - 1)) s" for k
    by (simp add: butlast_conv_take min.commute)
  show ?thesis
    unfolding strip_image_ext_def Let_def
    by (auto split: option.splits simp: b)
qed

lemma normalize_ext_suffix: "suffix ''.jpg.webp'' (normalize_ext x)"
  by (simp add: normalize_ext_def suffix_def)

lemma normalize_ext_shape:
  "normalize_ext x = x \<or> (\<exists>k z. normalize_ext x = take k x @ z \<and> CHR ''/'' \<notin> set z)"
proof -
  consider "strip_image_ext x = x" | k where "strip_image_ext x = take k x @ [CHR 0x0A]"
    | k where "strip_image_ext x = take k x"
    using strip_image_ext_shape [of x] by blast
  then have "\<exists>k z. strip_image_ext x @ ''.jpg.webp'' = take k x @ z \<and> CHR ''/'' \<notin> set z"
  proof cases
    case 1
    then have "strip_image_ext x @ ''.jpg.webp'' = take (length x) x @ ''.jpg.webp''" by simp
    then show ?thesis by (intro exI [of _ "length x"] exI [of _ "''.jpg.webp''"]) simp
  next
    case 2
    then show ?thesis
      by (intro exI [of _ k] exI [of _ "CHR 0x0A # ''.jpg.webp''"]) simp
  next
    case 3
    then show ?thesis by (intro exI [of _ k] exI [of _ "''.jpg.webp''"]) simp
  qed
  moreover have "\<exists>k z. take (length x - 5) x @ ''.jpg.webp'' = take k x @ z \<and> CHR ''/'' \<notin> set z"
    by (intro exI [of _ "length x - 5"] exI [of _ "''.jpg.webp''"]) simp
  ultimately show ?thesis
    unfolding normalize_ext_def by auto
qed

lemma normalize_ext_marker_free:
  assumes "\<not> sublist marker x"
  shows "\<not> sublist marker (normalize_ext x)"
proof -
  consider "normalize_ext x = x"
    | k z where "normalize_ext x = take k x @ z" "CHR ''/'' \<notin> set z"
    using normalize_ext_shape [of x] by blast
  then show ?thesis
  proof cases
    case 1
    with assms show ?thesis by simp
  next
    case 2
    have "\<not> sublist marker (take k x)"
      using assms sublist_order.order_trans [OF _ sublist_take] by blast
    moreover have "last marker \<notin> set z" using 2(2) by (simp add: marker_def)
    ultimately have "\<not> sublist marker (take k x @ z)"
      using marker_not_Nil by (intro no_sublist_append_tail)
    with 2(1) show ?thesis by simp
  qed
qed

lemma ascii_lower_fixed:
  "ascii_lower (CHR ''.'') = CHR ''.''" "ascii_lower (CHR 0x0A) = CHR 0x0A"
  by (simp_all add: ascii_lower_def ascii_upper_chars_def ascii_lower_chars_def)

lemma ascii_lower_dot: "ascii_lower c = CHR ''.'' \<longleftrightarrow> c = CHR ''.''"
  by (auto simp: ascii_lower_def ascii_upper_chars_def ascii_lower_chars_def)

lemma webp_in_exts: "''webp'' \<in> set image_exts"
  by (simp add: image_exts_def)

text \<open>The regular expression removes an extension written in any letter case.\<close>

lemma strip_image_ext_variant:
  assumes "map ascii_lower e \<in> set image_exts"
  shows "strip_image_ext (s @ CHR ''.'' # e) = s"
proof -
  define x where "x = map ascii_lower e"
  have len: "length e = length x" by (simp add: x_def)
  have x: "x \<in> set image_exts" using assms by (simp add: x_def)
  have ne: "e \<noteq> []" using x len by (auto simp: image_exts_def)
  have "ascii_lower (last e) = last x" using ne by (simp add: x_def last_map)
  moreover have "last x \<noteq> CHR 0x0A" using x by (auto simp: image_exts_def)
  ultimately have nl: "last e \<noteq> CHR 0x0A" using ascii_lower_fixed(2) by auto
  have f: "find (\<lambda>y. suffix (CHR ''.'' # y) (map ascii_lower s @ CHR ''.'' # x)) image_exts = Some x"
    using x by (auto simp: image_exts_def suffix_to_prefix)
  show ?thesis
    unfolding strip_image_ext_def Let_def using ne nl
    by (simp add: ascii_lower_fixed f [unfolded x_def])
qed

lemma normalize_ext_variant:
  assumes "map ascii_lower e \<in> set image_exts"
  shows "normalize_ext (s @ CHR ''.'' # e)
           = (if e = ''webp'' \<and> suffix ''.jpg'' s then s @ ''.webp'' else s @ ''.jpg.webp'')"
proof -
  define x where "x = map ascii_lower e"
  have len: "length e = length x" by (simp add: x_def)
  have x: "x \<in> set image_exts" using assms by (simp add: x_def)
  have l: "length e = 3 \<or> length e = 4" using x len by (auto simp: image_exts_def)
  have 1: "suffix ''.jpg.webp'' (s @ CHR ''.'' # e) \<longleftrightarrow> e = ''webp'' \<and> suffix ''.jpg'' s"
  proof (cases "length e = 4")
    case True
    then show ?thesis
      using suffix_same_length [of "''.webp''" "CHR ''.'' # e" "''.jpg''" s] by auto
  next
    case False
    with l have "length e = 3" by simp
    then show ?thesis
      using suffix_same_length [of "''webp''" "CHR ''.'' # e" "''.jpg.''" s] by auto
  qed
  have 2: "suffix ''.webp'' (s @ CHR ''.'' # e) \<longleftrightarrow> e = ''webp''"
  proof (cases "length e = 4")
    case True
    then show ?thesis
      using suffix_same_length [of "''.webp''" "CHR ''.'' # e" "[]" s] by auto
  next
    case False
    with l have "length e = 3" by simp
    then show ?thesis
      using suffix_same_length [of "''webp''" "CHR ''.'' # e" "''.''" s] by auto
  qed
  show ?thesis
    unfolding normalize_ext_def 1 2
    by (simp add: strip_image_ext_variant [OF assms])
qed

lemma normalize_ext_webp_variant:
  assumes "map ascii_lower w = ''.webp''" and "\<not> suffix ''.jpg'' (map ascii_lower s)"
  shows "normalize_ext (s @ w) = s @ ''.jpg.webp''"
proof -
  from assms(1) obtain c e where w: "w = c # e" and c: "ascii_lower c = CHR ''.''"
    and e: "map ascii_lower e = ''webp''"
    by (auto simp: map_eq_Cons_conv)
  from c have c': "c = CHR ''.''" by (simp add: ascii_lower_dot)
  have "\<not> suffix ''.jpg'' s"
  proof
    assume "suffix ''.jpg'' s"
    then have "suffix (map ascii_lower ''.jpg'') (map ascii_lower s)" by (rule map_mono_suffix)
    with assms(2) show False
      by (simp add: ascii_lower_def ascii_upper_chars_def ascii_lower_chars_def)
  qed
  moreover have "map ascii_lower e \<in> set image_exts" using e webp_in_exts by simp
  ultimately show ?thesis
    using normalize_ext_variant [of e s] by (simp add: w c')
qed

lemma normalize_ext_jpg_webp_variant:
  assumes "map ascii_lower v = ''.jpg.webp''"
  shows "normalize_ext (s @ v)
           = s @ (if v = ''.jpg.webp'' then ''.jpg.webp'' else take 4 v @ ''.jpg.webp'')"
proof -
  define v1 where "v1 = take 4 v"
  define w where "w = drop 4 v"
  have v: "v = v1 @ w" by (simp add: v1_def w_def)
  have lv: "length v = 9" using arg_cong [OF assms, of length] by simp
  then have l1: "length v1 = 4" by (simp add: v1_def)
  have "map ascii_lower w = drop 4 (map ascii_lower v)" by (simp add: w_def drop_map)
  then have lw: "map ascii_lower w = ''.webp''" by (simp add: assms)
  then obtain c e where w: "w = c # e" and c: "ascii_lower c = CHR ''.''"
    and e: "map ascii_lower e = ''webp''"
    by (auto simp: map_eq_Cons_conv)
  from c have c': "c = CHR ''.''" by (simp add: ascii_lower_dot)
  have ex: "map ascii_lower e \<in> set image_exts" using e webp_in_exts by simp
  have suf: "suffix ''.jpg'' (s @ v1) \<longleftrightarrow> v1 = ''.jpg''"
    using suffix_same_length [of "''.jpg''" v1 "[]" s] l1 by auto
  have "v1 @ CHR ''.'' # e = ''.jpg'' @ ''.webp'' \<longleftrightarrow> v1 = ''.jpg'' \<and> CHR ''.'' # e = ''.webp''"
    using l1 by (intro append_eq_append_conv) simp
  then have eq: "v = ''.jpg.webp'' \<longleftrightarrow> e = ''webp'' \<and> v1 = ''.jpg''"
    by (auto simp: v w c')
  have "normalize_ext (s @ v) = normalize_ext ((s @ v1) @ CHR ''.'' # e)"
    by (simp add: v w c')
  also have "\<dots> = (if e = ''webp'' \<and> suffix ''.jpg'' (s @ v1)
                    then (s @ v1) @ ''.webp'' else (s @ v1) @ ''.jpg.webp'')"
    using ex by (rule normalize_ext_variant)
  also have "\<dots> = s @ (if v = ''.jpg.webp'' then ''.jpg.webp'' else take 4 v @ ''.jpg.webp'')"
    unfolding suf eq by (auto simp: v1_def)
  finally show ?thesis .
qed

subsection \<open>Counting the prefix in a result\<close>

lemma occurrences_canonical:
  assumes "\<not> sublist marker r"
  shows "occurrences prefix_path (canonical_prefix @ r)
           = (if prefix ''sites/default/files/styles/no_compression/public/'' r then 2 else 1)"
proof -
  have "occurrences prefix_path r = 0"
    using assms marker_not_Nil by (rule occurrences_zero) (simp add: marker_def prefix_path_def)
  then show ?thesis
    by (simp add: canonical_prefix_def prefix_path_def)
qed

lemma py_count_canonical:
  assumes "\<not> sublist marker r"
  shows "py_count prefix_path (canonical_prefix @ r) = 1"
proof -
  have a: "find_split prefix_path (canonical_prefix @ r) = Some (''https://gameinformer.com'', r)"
    by (simp add: canonical_prefix_def prefix_path_def)
  have "sublist marker prefix_path"
    by (rule prefix_imp_sublist) (simp add: marker_def prefix_path_def)
  with assms have "\<not> sublist prefix_path r"
    using sublist_order.order_trans by blast
  then have b: "find_split prefix_path r = None"
    by (simp add: find_split_None py_in_sublist)
  have ne: "prefix_path \<noteq> []" by (simp add: prefix_path_def)
  have "py_split prefix_path r = [r]"
    using ne b by (subst py_split.simps) simp
  moreover have "py_split prefix_path (canonical_prefix @ r)
      = ''https://gameinformer.com'' # py_split prefix_path r"
    using ne a by (subst py_split.simps) simp
  ultimately show ?thesis by (simp add: py_count_def)
qed

subsection \<open>urlparse on a URL of the site\<close>

lemma plain_takeWhile:
  "plain_chars t \<Longrightarrow> takeWhile (\<lambda>c. c \<noteq> CHR ''#'') t = t"
  "plain_chars t \<Longrightarrow> takeWhile (\<lambda>c. c \<noteq> CHR ''?'') t = t"
  by (auto simp: plain_chars_def)

lemma plain_not_in:
  "plain_chars t \<Longrightarrow> CHR ''#'' \<notin> set t"
  "plain_chars t \<Longrightarrow> CHR ''?'' \<notin> set t"
  "plain_chars t \<Longrightarrow> CHR '';'' \<notin> set t"
  by (auto simp: plain_chars_def)

lemma urlsplit_site:
  assumes "plain_chars t"
  shows "urlsplit ip6 (''https://gameinformer.com/sites/default/files/'' @ t) []
           = Inr \<lparr>scheme = ''https'', netloc = ''gameinformer.com'',
                  path = ''/sites/default/files/'' @ t, params = [], query = [], fragment = []\<rparr>"
proof -
  have f: "filter (\<lambda>c. c \<noteq> CHR 0x09 \<and> c \<noteq> CHR 0x0D \<and> c \<noteq> CHR 0x0A) t = t"
    using assms by (simp add: plain_chars_def unsafe_url_bytes_def)
  show ?thesis
    by (simp add: urlsplit_def Let_def f assms plain_takeWhile plain_not_in
          c0_control_or_space_def unsafe_url_bytes_def ascii_lower_chars_def
          ascii_upper_chars_def scheme_chars_def ascii_lower_def splitnetloc_def)
qed

lemma urlparse_site:
  assumes "plain_chars t"
  shows "urlparse ip6 (''https://gameinformer.com/sites/default/files/'' @ t) []
           = Inr \<lparr>scheme = ''https'', netloc = ''gameinformer.com'',
                  path = ''/sites/default/files/'' @ t, params = [], query = [], fragment = []\<rparr>"
  unfolding urlparse_def urlsplit_site [OF assms]
  by (simp add: plain_not_in [OF assms])

lemma cut_query_fragment_plain:
  assumes "plain_chars t"
  shows "cut_query_fragment t = t"
proof -
  have "\<not> py_in ''?'' t" and "\<not> py_in ''#'' t"
    using assms by (simp_all add: py_in_single plain_not_in)
  then show ?thesis
    by (simp add: cut_query_fragment_def hd_py_split_id)
qed

lemma path_after_marker_site:
  assumes "\<not> py_in marker t" and "plain_chars t"
  shows "path_after_marker (marker @ t) = Inr (strip_styles t)"
proof -
  have "find_split marker (marker @ t) = Some ([], t)"
    by (simp add: marker_def)
  then have "py_split marker (marker @ t) = [] # py_split marker t"
    using marker_not_Nil by (subst py_split.simps) simp
  moreover have "py_split marker t = [t]"
    using assms(1) by (subst py_split.simps) (simp add: find_split_None [symmetric])
  ultimately show ?thesis
    by (simp add: path_after_marker_def cut_query_fragment_plain [OF assms(2)])
qed

lemma styles_prefix_plain: "plain_chars r \<Longrightarrow> plain_chars (styles_prefix @ r)"
  by (simp add: plain_chars_def styles_prefix_def unsafe_url_bytes_def)

lemma styles_prefix_marker_free:
  "\<not> py_in marker (CHR ''/'' # r) \<Longrightarrow> \<not> py_in marker (styles_prefix @ r)"
  by (simp add: styles_prefix_def marker_def)

section \<open>urllib on a URL without square brackets\<close>


lemma bracket_free_append [simp]: "bracket_free (s @ t) \<longleftrightarrow> bracket_free s \<and> bracket_free t"
  by (auto simp: bracket_free_def)

lemma bracket_free_Nil [simp]: "bracket_free []"
  by (simp add: bracket_free_def)

lemma bracket_free_Cons [simp]:
  "bracket_free (c # s) \<longleftrightarrow> c \<noteq> CHR ''['' \<and> c \<noteq> CHR '']'' \<and> bracket_free s"
  by (auto simp: bracket_free_def)

























section \<open>The deduplication loop\<close>

lemma dedupe_loop_acc: "dedupe_loop seen acc xs = acc @ dedupe_loop seen [] xs"
proof (induction xs arbitrary: seen acc)
  case Nil
  then show ?case by simp
next
  case (Cons x xs)
  show ?case
  proof (cases "x \<in> seen")
    case True
    then show ?thesis using Cons.IH [of seen acc] by simp
  next
    case False
    have "dedupe_loop (insert x seen) (acc @ [x]) xs = (acc @ [x]) @ dedupe_loop (insert x seen) [] xs"
      by (rule Cons.IH)
    moreover have "dedupe_loop (insert x seen) [x] xs = [x] @ dedupe_loop (insert x seen) [] xs"
      by (rule Cons.IH)
    ultimately show ?thesis using False by simp
  qed
qed

lemma dedupe_loop_Cons:
  "dedupe_loop seen [] (x # xs)
     = (if x \<in> seen then dedupe_loop seen [] xs else x # dedupe_loop (insert x seen) [] xs)"
  using dedupe_loop_acc [of "insert x seen" "[x]" xs] by simp

lemma dedupe_loop_set: "set (dedupe_loop seen [] xs) = set xs - seen"
proof (induction xs arbitrary: seen)
  case Nil
  then show ?case by simp
next
  case (Cons x xs)
  show ?case
    unfolding dedupe_loop_Cons using Cons.IH [of seen] Cons.IH [of "insert x seen"] by auto
qed

lemma dedupe_loop_distinct: "distinct (dedupe_loop seen [] xs)"
proof (induction xs arbitrary: seen)
  case Nil
  then show ?case by simp
next
  case (Cons x xs)
  show ?case
    unfolding dedupe_loop_Cons
    using Cons.IH [of seen] Cons.IH [of "insert x seen"] by (simp add: dedupe_loop_set)
qed

text \<open>
  The loop keeps the elements at the positions whose element is neither in \<open>seen\<close> nor
  at an earlier position.
\<close>

lemma dedupe_loop_positions:
  "dedupe_loop seen [] xs
     = map ((!) xs) (filter (\<lambda>i. xs ! i \<notin> seen \<union> set (take i xs)) [0..<length xs])"
proof (induction xs arbitrary: seen)
  case Nil
  then show ?case by simp
next
  case (Cons x xs)
  let ?P = "\<lambda>i. (x # xs) ! i \<notin> seen \<union> set (take i (x # xs))"
  let ?Q = "\<lambda>i. xs ! i \<notin> insert x seen \<union> set (take i xs)"
  have upt: "[0..<length (x # xs)] = 0 # map Suc [0..<length xs]"
    by (simp add: upt_conv_Cons map_Suc_upt del: upt_Suc)
  have PQ: "?P \<circ> Suc = ?Q" by (rule ext) auto
  have nth: "(!) (x # xs) \<circ> Suc = (!) xs" by (rule ext) simp
  have "map ((!) (x # xs)) (filter ?P (map Suc [0..<length xs]))
      = map ((!) (x # xs) \<circ> Suc) (filter (?P \<circ> Suc) [0..<length xs])"
    by (simp only: filter_map map_map)
  also have "\<dots> = map ((!) xs) (filter ?Q [0..<length xs])"
    by (simp only: PQ nth)
  also have "\<dots> = dedupe_loop (insert x seen) [] xs"
    by (rule Cons.IH [symmetric])
  finally have tail: "map ((!) (x # xs)) (filter ?P (map Suc [0..<length xs]))
      = dedupe_loop (insert x seen) [] xs" .
  have "map ((!) (x # xs)) (filter ?P [0..<length (x # xs)])
      = (if x \<in> seen then [] else [x]) @ map ((!) (x # xs)) (filter ?P (map Suc [0..<length xs]))"
    unfolding upt by simp
  also have "\<dots> = (if x \<in> seen then [] else [x]) @ dedupe_loop (insert x seen) [] xs"
    by (simp only: tail)
  also have "\<dots> = dedupe_loop seen [] (x # xs)"
    by (simp add: dedupe_loop_Cons insert_absorb del: dedupe_loop.simps)
  finally show ?case by (rule sym)
qed

section \<open>Printing leaves the file system and the request log alone\<close>

lemma say_frame [simp]:
  "fs (say e w) = fs w" "requests (say e w) = requests w" "stdout (say e w) = stdout w @ [e]"
  by (simp_all add: say_def)

section \<open>The claims\<close>

subsection \<open>C1: the shape of a normalised URL\<close>

text \<open>
  C1, as amended. For every raw URL whose parsed path contains the marker
  \<open>/sites/default/files/\<close>, \<open>normalize_url\<close> prints nothing and returns
  \<open>https://gameinformer.com/sites/default/files/styles/no_compression/public/\<close> followed
  by a remainder \<open>r\<close> that ends in \<open>.jpg.webp\<close> and contains no marker; so the result
  is absolute and ends in \<open>.jpg.webp\<close>. The prefix path
  \<open>/sites/default/files/styles/no_compression/public/\<close> occurs at exactly one position
  of the result, unless \<open>r\<close> starts with
  \<open>sites/default/files/styles/no_compression/public/\<close>: then it occurs at exactly two
  positions, which share one slash. Counted without overlap, as \<open>str.count\<close> counts, it
  occurs once in every case.
\<close>

theorem normalize_url_marker_result:
  assumes "parsed_path ip6 u = Inr p" and "py_in marker p"
  shows "\<exists>r. normalize_url ip6 u = Inr ([], canonical_prefix @ r)
           \<and> suffix ''.jpg.webp'' r \<and> \<not> py_in marker r
           \<and> occurrences prefix_path (canonical_prefix @ r)
               = (if prefix ''sites/default/files/styles/no_compression/public/'' r then 2 else 1)
           \<and> py_count prefix_path (canonical_prefix @ r) = 1"
proof -
  from assms(2) obtain x where x: "path_after_marker p = Inr x" and free: "\<not> sublist marker x"
    by (rule path_after_marker_ok)
  let ?r = "normalize_ext x"
  have "normalize_url ip6 u = Inr ([], canonical_prefix @ ?r)"
    using assms(1) x by (rule normalize_url_by_path)
  moreover have "suffix ''.jpg.webp'' ?r" by (rule normalize_ext_suffix)
  moreover have m: "\<not> sublist marker ?r" using free by (rule normalize_ext_marker_free)
  moreover from m have "\<not> py_in marker ?r" by (simp add: py_in_sublist)
  moreover from m have "occurrences prefix_path (canonical_prefix @ ?r)
      = (if prefix ''sites/default/files/styles/no_compression/public/'' ?r then 2 else 1)"
    by (rule occurrences_canonical)
  moreover from m have "py_count prefix_path (canonical_prefix @ ?r) = 1"
    by (rule py_count_canonical)
  ultimately show ?thesis by blast
qed

text \<open>The theorem at the URL of a cover image.\<close>

theorem normalize_url_marker_result_witness:
  "parsed_path no_ipv6 ''https://gameinformer.com/sites/default/files/2023/06/cover1.png''
     = Inr ''/sites/default/files/2023/06/cover1.png''
   \<and> py_in marker ''/sites/default/files/2023/06/cover1.png''
   \<and> (\<exists>r. normalize_url no_ipv6 ''https://gameinformer.com/sites/default/files/2023/06/cover1.png''
             = Inr ([], canonical_prefix @ r)
          \<and> suffix ''.jpg.webp'' r \<and> \<not> py_in marker r
          \<and> occurrences prefix_path (canonical_prefix @ r)
               = (if prefix ''sites/default/files/styles/no_compression/public/'' r then 2 else 1)
          \<and> py_count prefix_path (canonical_prefix @ r) = 1)"
proof -
  have 1: "parsed_path no_ipv6 ''https://gameinformer.com/sites/default/files/2023/06/cover1.png''
     = Inr ''/sites/default/files/2023/06/cover1.png''"
    by code_simp
  have 2: "py_in marker ''/sites/default/files/2023/06/cover1.png''"
    by code_simp
  from 1 2 normalize_url_marker_result [OF 1 2] show ?thesis by blast
qed

text \<open>
  C1 as stated fails: the path of this URL contains the marker, and the prefix path
  occurs at two positions of the result.
\<close>

theorem normalize_url_prefix_twice:
  "parsed_path no_ipv6
     ''https://gameinformer.com/sites/default/files/sites/default/files/styles/no_compression/public/x.png''
     = Inr ''/sites/default/files/sites/default/files/styles/no_compression/public/x.png''
   \<and> py_in marker ''/sites/default/files/sites/default/files/styles/no_compression/public/x.png''
   \<and> normalize_url no_ipv6
     ''https://gameinformer.com/sites/default/files/sites/default/files/styles/no_compression/public/x.png''
     = Inr ([], ''https://gameinformer.com/sites/default/files/styles/no_compression/public/sites/default/files/styles/no_compression/public/x.jpg.webp'')
   \<and> occurrences ''/sites/default/files/styles/no_compression/public/''
        ''https://gameinformer.com/sites/default/files/styles/no_compression/public/sites/default/files/styles/no_compression/public/x.jpg.webp''
       = 2"
  by code_simp

subsection \<open>C2: idempotence\<close>

text \<open>
  C2, as amended. Let \<open>u\<close> be
  \<open>https://gameinformer.com/sites/default/files/styles/no_compression/public/\<close> followed
  by a remainder \<open>r\<close> that ends in \<open>.jpg.webp\<close>, contains none of \<open>?\<close>, \<open>#\<close>, \<open>;\<close>,
  tab, carriage return and line feed, and, with a slash put before it, does not contain
  the marker \<open>/sites/default/files/\<close>. Then \<open>normalize_url(u)\<close> is \<open>u\<close>, and so
  normalising twice gives what normalising once gives.
\<close>

theorem normalize_url_canonical_fixed:
  assumes "suffix ''.jpg.webp'' r" and "plain_chars r" and "\<not> py_in marker (CHR ''/'' # r)"
  shows "normalize_url ip6 (canonical_prefix @ r) = Inr ([], canonical_prefix @ r)
         \<and> (case normalize_url ip6 (canonical_prefix @ r) of
               Inl e \<Rightarrow> Inl e
             | Inr (out, v) \<Rightarrow> normalize_url ip6 v) = normalize_url ip6 (canonical_prefix @ r)"
proof -
  let ?t = "styles_prefix @ r"
  have u: "canonical_prefix @ r = ''https://gameinformer.com/sites/default/files/'' @ ?t"
    by (simp add: canonical_prefix_def styles_prefix_def)
  have pt: "plain_chars ?t" using assms(2) by (rule styles_prefix_plain)
  have ft: "\<not> py_in marker ?t" using assms(3) by (rule styles_prefix_marker_free)
  have res: "resolve ip6 (canonical_prefix @ r) = Inr (canonical_prefix @ r)"
    by (simp add: resolve_def canonical_prefix_def)
  have "urlparse ip6 (canonical_prefix @ r) []
          = Inr \<lparr>scheme = ''https'', netloc = ''gameinformer.com'',
                 path = ''/sites/default/files/'' @ ?t, params = [], query = [], fragment = []\<rparr>"
    unfolding u using pt by (rule urlparse_site)
  with res have pp: "parsed_path ip6 (canonical_prefix @ r) = Inr (marker @ ?t)"
    by (simp add: parsed_path_def marker_def)
  have "path_after_marker (marker @ ?t) = Inr (strip_styles ?t)"
    using ft pt by (rule path_after_marker_site)
  then have pa: "path_after_marker (marker @ ?t) = Inr r"
    by (simp add: strip_styles_def)
  have "normalize_url ip6 (canonical_prefix @ r) = Inr ([], canonical_prefix @ normalize_ext r)"
    using pp pa by (rule normalize_url_by_path)
  moreover have "normalize_ext r = r" using assms(1) by (simp add: normalize_ext_def)
  ultimately have "normalize_url ip6 (canonical_prefix @ r) = Inr ([], canonical_prefix @ r)"
    by simp
  then show ?thesis by simp
qed

text \<open>The theorem at the canonical URL of a cover image.\<close>

theorem normalize_url_canonical_fixed_witness:
  "suffix ''.jpg.webp'' ''2023/06/cover1.jpg.webp''
   \<and> plain_chars ''2023/06/cover1.jpg.webp''
   \<and> \<not> py_in marker (CHR ''/'' # ''2023/06/cover1.jpg.webp'')
   \<and> normalize_url no_ipv6 (canonical_prefix @ ''2023/06/cover1.jpg.webp'')
       = Inr ([], canonical_prefix @ ''2023/06/cover1.jpg.webp'')"
proof -
  have 1: "suffix ''.jpg.webp'' ''2023/06/cover1.jpg.webp''" by code_simp
  have 2: "plain_chars ''2023/06/cover1.jpg.webp''" by code_simp
  have 3: "\<not> py_in marker (CHR ''/'' # ''2023/06/cover1.jpg.webp'')" by code_simp
  from 1 2 3 normalize_url_canonical_fixed [OF 1 2 3] show ?thesis by blast
qed

text \<open>
  C2 as stated fails: \<open>normalize_url\<close> returns a URL that is absolute, under the prefix
  and ends in \<open>.jpg.webp\<close>, and normalising that URL gives another one. The scheme \<open>ws\<close>
  has no parameters, so \<open>;b.png\<close> stays in the path of the first URL; under \<open>https\<close>
  \<open>urlparse\<close> takes \<open>;b.jpg.webp\<close> out of the path.
\<close>

theorem normalize_url_not_idempotent:
  "normalize_url no_ipv6 ''ws://h/sites/default/files/a;b.png''
     = Inr ([], ''https://gameinformer.com/sites/default/files/styles/no_compression/public/a;b.jpg.webp'')
   \<and> normalize_url no_ipv6
       ''https://gameinformer.com/sites/default/files/styles/no_compression/public/a;b.jpg.webp''
     = Inr ([], ''https://gameinformer.com/sites/default/files/styles/no_compression/public/a.jpg.webp'')
   \<and> normalize_url no_ipv6
       ''https://gameinformer.com/sites/default/files/styles/no_compression/public/a;b.jpg.webp''
     \<noteq> Inr ([], ''https://gameinformer.com/sites/default/files/styles/no_compression/public/a;b.jpg.webp'')"
  by code_simp

subsection \<open>C3: the two scenarios\<close>

text \<open>
  C3. The relative href \<open>/sites/default/files/2023/06/cover1.png\<close> is normalised to
  \<open>https://gameinformer.com/sites/default/files/styles/no_compression/public/2023/06/cover1.jpg.webp\<close>,
  and the href that already has the prefix,
  \<open>https://gameinformer.com/sites/default/files/styles/no_compression/public/2023/06/cover2.webp\<close>,
  to the same prefix with \<open>cover2.jpg.webp\<close>: the prefix is not doubled. Neither call
  prints anything or raises.
\<close>

theorem normalize_url_scenarios:
  "normalize_url ip6 ''/sites/default/files/2023/06/cover1.png''
     = Inr ([], ''https://gameinformer.com/sites/default/files/styles/no_compression/public/2023/06/cover1.jpg.webp'')
   \<and> normalize_url ip6 ''https://gameinformer.com/sites/default/files/styles/no_compression/public/2023/06/cover2.webp''
     = Inr ([], ''https://gameinformer.com/sites/default/files/styles/no_compression/public/2023/06/cover2.jpg.webp'')"
  by code_simp

text \<open>The scenarios with an \<open>ipaddress\<close> module that accepts nothing.\<close>

theorem normalize_url_scenarios_witness:
  "normalize_url no_ipv6 ''/sites/default/files/2023/06/cover1.png''
     = Inr ([], ''https://gameinformer.com/sites/default/files/styles/no_compression/public/2023/06/cover1.jpg.webp'')
   \<and> normalize_url no_ipv6 ''https://gameinformer.com/sites/default/files/styles/no_compression/public/2023/06/cover2.webp''
     = Inr ([], ''https://gameinformer.com/sites/default/files/styles/no_compression/public/2023/06/cover2.jpg.webp'')"
  using normalize_url_scenarios [of no_ipv6] .

subsection \<open>C4: the extension in any letter case\<close>




subsection \<open>C5: a URL without the marker\<close>




subsection \<open>C6: deduplication\<close>

text \<open>
  C6. The deduplication loop returns, in their order, the elements at the positions of
  the input that hold the first occurrence of their value: the output has no duplicates,
  has the values of the input, and \<open>[A, B, A, C]\<close> gives \<open>[A, B, C]\<close>.
\<close>

theorem dedupe_first_occurrences:
  "dedupe xs = map ((!) xs) (filter (\<lambda>i. xs ! i \<notin> set (take i xs)) [0..<length xs])
   \<and> distinct (dedupe xs) \<and> set (dedupe xs) = set xs
   \<and> dedupe [''A'', ''B'', ''A'', ''C''] = [''A'', ''B'', ''C'']"
proof -
  have 1: "dedupe xs = map ((!) xs) (filter (\<lambda>i. xs ! i \<notin> set (take i xs)) [0..<length xs])"
    using dedupe_loop_positions [of "{}" xs] by (simp add: dedupe_def)
  have 2: "distinct (dedupe xs)"
    by (simp add: dedupe_def dedupe_loop_distinct)
  have 3: "set (dedupe xs) = set xs"
    by (simp add: dedupe_def dedupe_loop_set)
  have 4: "dedupe [''A'', ''B'', ''A'', ''C''] = [''A'', ''B'', ''C'']"
    by (simp add: dedupe_def)
  from 1 2 3 4 show ?thesis by (intro conjI)
qed

text \<open>The theorem at a list of numbers.\<close>

theorem dedupe_first_occurrences_witness:
  "dedupe [3, 1, 3, 2, 1 :: nat] = [3, 1, 2] \<and> distinct (dedupe [3, 1, 3, 2, 1 :: nat])"
  using dedupe_first_occurrences [of "[3, 1, 3, 2, 1 :: nat]"]
  by (simp add: upt_rec [of 0] upt_rec [of 1] upt_rec [of 2] upt_rec [of 3] upt_rec [of 4])

subsection \<open>C7: the skip rule\<close>

text \<open>
  C7. When the file that the URL's file name denotes in the output directory exists,
  \<open>download_image\<close> returns \<open>True\<close>, leaves the file system and the list of requests as
  they were, and prints that the file is skipped. The loop of main does the same when its
  own test finds the file: it makes no request, writes nothing, prints the skip, adds one
  to \<open>skip_count\<close> and goes on with the next URL.
\<close>

theorem download_skips_existing:
  assumes "urlparse (is_ipv6 env) url [] = Inr parsed"
  shows "(path_exists env (fs w) (os_path_join output_dir (filename_of url parsed)) \<longrightarrow>
            (\<exists>w'. download_image env url output_dir w = Inr (True, w')
                 \<and> fs w' = fs w \<and> requests w' = requests w
                 \<and> stdout w' = stdout w @ [Skipping (filename_of url parsed)]))
         \<and> (path_exists env (fs (world st)) (pathlib_join ''output'' (basename (path parsed))) \<longrightarrow>
            (\<exists>w'. download_loop env n i (url # urls) st
                    = download_loop env n (Suc i) urls
                        (st\<lparr>skip_count := skip_count st + 1, world := w'\<rparr>)
                 \<and> fs w' = fs (world st) \<and> requests w' = requests (world st)
                 \<and> stdout w' = stdout (world st)
                      @ [Progress i n url, Skipping (basename (path parsed))]))"
proof (intro conjI impI)
  assume "path_exists env (fs w) (os_path_join output_dir (filename_of url parsed))"
  with assms have "download_image env url output_dir w
      = Inr (True, say (Skipping (filename_of url parsed)) w)"
    by (simp add: download_image_def Let_def)
  then show "\<exists>w'. download_image env url output_dir w = Inr (True, w')
                 \<and> fs w' = fs w \<and> requests w' = requests w
                 \<and> stdout w' = stdout w @ [Skipping (filename_of url parsed)]"
    by simp
next
  let ?w = "say (Skipping (basename (path parsed))) (say (Progress i n url) (world st))"
  assume "path_exists env (fs (world st)) (pathlib_join ''output'' (basename (path parsed)))"
  with assms have "download_loop env n i (url # urls) st
      = download_loop env n (Suc i) urls (st\<lparr>skip_count := skip_count st + 1, world := ?w\<rparr>)"
    by (simp add: Let_def)
  moreover have "fs ?w = fs (world st)" "requests ?w = requests (world st)"
    "stdout ?w = stdout (world st) @ [Progress i n url, Skipping (basename (path parsed))]"
    by simp_all
  ultimately show "\<exists>w'. download_loop env n i (url # urls) st
                    = download_loop env n (Suc i) urls
                        (st\<lparr>skip_count := skip_count st + 1, world := w'\<rparr>)
                 \<and> fs w' = fs (world st) \<and> requests w' = requests (world st)
                 \<and> stdout w' = stdout (world st)
                      @ [Progress i n url, Skipping (basename (path parsed))]"
    by blast
qed

text \<open>The theorem where \<open>output/cover1.jpg.webp\<close> exists.\<close>

theorem download_skips_existing_witness:
  "download_image offline_env cover_url ''output''
      \<lparr>fs = [''output/cover1.jpg.webp''], requests = [], stdout = []\<rparr>
     = Inr (True, \<lparr>fs = [''output/cover1.jpg.webp''], requests = [],
                   stdout = [Skipping ''cover1.jpg.webp'']\<rparr>)
   \<and> download_loop offline_env 1 1 [cover_url]
        \<lparr>success_count = 0, skip_count = 0,
         world = \<lparr>fs = [''output/cover1.jpg.webp''], requests = [], stdout = []\<rparr>\<rparr>
     = Inr \<lparr>success_count = 0, skip_count = 1,
            world = \<lparr>fs = [''output/cover1.jpg.webp''], requests = [],
                     stdout = [Progress 1 1 cover_url, Skipping ''cover1.jpg.webp'']\<rparr>\<rparr>"
proof -
  let ?w = "\<lparr>fs = [''output/cover1.jpg.webp''], requests = [], stdout = []\<rparr> :: string list world"
  let ?st = "\<lparr>success_count = 0, skip_count = 0, world = ?w\<rparr>"
  have p: "urlparse (is_ipv6 offline_env) cover_url [] = Inr cover_parsed"
    by code_simp
  have f: "filename_of cover_url cover_parsed = ''cover1.jpg.webp''"
    "basename (path cover_parsed) = ''cover1.jpg.webp''"
    by code_simp+
  have e1: "path_exists offline_env (fs ?w) (os_path_join ''output'' (filename_of cover_url cover_parsed))"
    by code_simp
  have e2: "path_exists offline_env (fs (world ?st)) (pathlib_join ''output'' (basename (path cover_parsed)))"
    by code_simp
  from download_skips_existing [OF p, of ?w "''output''" ?st 1 1 "[]"] e1 e2
  obtain w1 w2 where 1: "download_image offline_env cover_url ''output'' ?w = Inr (True, w1)"
    and w1: "fs w1 = fs ?w" "requests w1 = requests ?w"
      "stdout w1 = stdout ?w @ [Skipping (filename_of cover_url cover_parsed)]"
    and 2: "download_loop offline_env 1 1 [cover_url] ?st
        = download_loop offline_env 1 (Suc 1) [] (?st\<lparr>skip_count := skip_count ?st + 1, world := w2\<rparr>)"
    and w2: "fs w2 = fs (world ?st)" "requests w2 = requests (world ?st)"
      "stdout w2 = stdout (world ?st) @ [Progress 1 1 cover_url, Skipping (basename (path cover_parsed))]"
    by blast
  from w1 have "w1 = \<lparr>fs = [''output/cover1.jpg.webp''], requests = [],
                   stdout = [Skipping ''cover1.jpg.webp'']\<rparr>"
    by (cases w1) (simp add: f)
  moreover from w2 have "w2 = \<lparr>fs = [''output/cover1.jpg.webp''], requests = [],
                     stdout = [Progress 1 1 cover_url, Skipping ''cover1.jpg.webp'']\<rparr>"
    by (cases w2) (simp add: f)
  ultimately show ?thesis using 1 2 by simp
qed

subsection \<open>C8: a failed download\<close>

text \<open>
  C8, as amended. When the file does not exist yet and the body of the \<open>try\<close> block
  raises an exception \<open>e\<close> (in the request, in \<open>raise_for_status\<close> or in the write),
  \<open>download_image\<close> does not raise: it prints the file name with \<open>e\<close> and returns
  \<open>False\<close>. The loop of main then goes on with the remaining URLs, with \<open>success_count\<close>
  and \<open>skip_count\<close> as they were: the program keeps no count of failures.
\<close>

theorem download_failure_continues:
  assumes "urlparse (is_ipv6 env) url [] = Inr parsed"
    and "\<not> path_exists env (fs w) (os_path_join output_dir (filename_of url parsed))"
    and "try_body env url (filename_of url parsed)
           (os_path_join output_dir (filename_of url parsed)) w = (Some e, w')"
  shows "download_image env url output_dir w
           = Inr (False, say (Error_downloading (filename_of url parsed) e) w')
         \<and> (output_dir = ''output'' \<and> w = say (Progress i n url) (world st)
              \<and> \<not> path_exists env (fs (world st))
                    (pathlib_join ''output'' (basename (path parsed))) \<longrightarrow>
            download_loop env n i (url # urls) st
              = download_loop env n (Suc i) urls
                  (st\<lparr>world := say Blank_line
                                  (say (Error_downloading (filename_of url parsed) e) w')\<rparr>))"
proof -
  have d: "download_image env url output_dir w
      = Inr (False, say (Error_downloading (filename_of url parsed) e) w')"
    using assms by (simp add: download_image_def Let_def fetch_and_write_def)
  have "download_loop env n i (url # urls) st
      = download_loop env n (Suc i) urls
          (st\<lparr>world := say Blank_line (say (Error_downloading (filename_of url parsed) e) w')\<rparr>)"
    if "output_dir = ''output''" and "w = say (Progress i n url) (world st)"
      and "\<not> path_exists env (fs (world st)) (pathlib_join ''output'' (basename (path parsed)))"
    using that assms(1) d by (simp add: Let_def)
  with d show ?thesis by blast
qed

text \<open>The theorem on a machine that is offline, with two URLs to download.\<close>

theorem download_failure_continues_witness:
  "download_image offline_env cover_url ''output''
      \<lparr>fs = [], requests = [], stdout = [Progress 1 2 cover_url]\<rparr>
     = Inr (False, \<lparr>fs = [], requests = [cover_url],
                    stdout = [Progress 1 2 cover_url, Downloading ''cover1.jpg.webp'',
                              Error_downloading ''cover1.jpg.webp'' (RequestException ''offline'')]\<rparr>)
   \<and> download_loop offline_env 2 1 [cover_url, cover_url]
        \<lparr>success_count = 0, skip_count = 0, world = \<lparr>fs = [], requests = [], stdout = []\<rparr>\<rparr>
     = download_loop offline_env 2 (Suc 1) [cover_url]
        \<lparr>success_count = 0, skip_count = 0,
         world = \<lparr>fs = [], requests = [cover_url],
                  stdout = [Progress 1 2 cover_url, Downloading ''cover1.jpg.webp'',
                            Error_downloading ''cover1.jpg.webp'' (RequestException ''offline''),
                            Blank_line]\<rparr>\<rparr>"
proof -
  let ?w0 = "\<lparr>fs = [], requests = [], stdout = []\<rparr> :: string list world"
  let ?st = "\<lparr>success_count = 0, skip_count = 0, world = ?w0\<rparr>"
  let ?w = "say (Progress 1 2 cover_url) ?w0"
  let ?w' = "\<lparr>fs = [], requests = [cover_url],
              stdout = [Progress 1 2 cover_url, Downloading ''cover1.jpg.webp'']\<rparr> :: string list world"
  have p: "urlparse (is_ipv6 offline_env) cover_url [] = Inr cover_parsed"
    by code_simp
  have f: "filename_of cover_url cover_parsed = ''cover1.jpg.webp''"
    by code_simp
  have e1: "\<not> path_exists offline_env (fs ?w) (os_path_join ''output'' (filename_of cover_url cover_parsed))"
    by code_simp
  have e2: "\<not> path_exists offline_env (fs (world ?st)) (pathlib_join ''output'' (basename (path cover_parsed)))"
    by code_simp
  have t: "try_body offline_env cover_url (filename_of cover_url cover_parsed)
           (os_path_join ''output'' (filename_of cover_url cover_parsed)) ?w
        = (Some (RequestException ''offline''), ?w')"
    by code_simp
  from download_failure_continues [OF p e1 t, of 1 2 ?st "[cover_url]"] e2
  show ?thesis
    unfolding f by (simp add: say_def del: download_loop.simps)
qed

text \<open>
  C8 as stated fails in one point, that the failure is counted: after a run whose only
  download fails, both counters are 0, as they were before the run.
\<close>

theorem download_failure_not_counted:
  "download_loop offline_env 1 1 [cover_url]
      \<lparr>success_count = 0, skip_count = 0, world = \<lparr>fs = [], requests = [], stdout = []\<rparr>\<rparr>
     = Inr \<lparr>success_count = 0, skip_count = 0,
            world = \<lparr>fs = [], requests = [cover_url],
                     stdout = [Progress 1 1 cover_url, Downloading ''cover1.jpg.webp'',
                               Error_downloading ''cover1.jpg.webp'' (RequestException ''offline''),
                               Blank_line]\<rparr>\<rparr>"
  by code_simp

subsection \<open>C9: absolute or relative\<close>

text \<open>
  C9. Whether the argument is joined to the base is decided by its first four characters
  alone. An argument that starts with \<open>http\<close> is parsed as it is, so \<open>httpx-foo\<close> comes
  back unchanged. Every other argument goes through \<open>urljoin\<close> with
  \<open>https://gameinformer.com\<close> before the path is looked at: \<open>//host/path\<close> becomes
  \<open>https://host/path\<close>, a relative path is put under the base, and \<open>urljoin\<close> returns a
  URL of another scheme as it is.
\<close>

theorem resolve_by_http_prefix:
  "(prefix ''http'' u \<longrightarrow> normalize_url ip6 u = normalize_resolved ip6 u)
   \<and> (\<not> prefix ''http'' u \<longrightarrow>
        normalize_url ip6 u
          = (case urljoin ip6 ''https://gameinformer.com'' u of
               Inl e \<Rightarrow> Inl e
             | Inr url \<Rightarrow> normalize_resolved ip6 url))
   \<and> normalize_url ip6 ''httpx-foo'' = Inr ([Warning_no_marker ''httpx-foo''], ''httpx-foo'')
   \<and> normalize_url ip6 ''//host/path''
        = Inr ([Warning_no_marker ''https://host/path''], ''https://host/path'')
   \<and> normalize_url ip6 ''ftp://host/x'' = Inr ([Warning_no_marker ''ftp://host/x''], ''ftp://host/x'')
   \<and> normalize_url ip6 ''img/x.png''
        = Inr ([Warning_no_marker ''https://gameinformer.com/img/x.png''],
               ''https://gameinformer.com/img/x.png'')"
proof -
  have "normalize_url ip6 ''httpx-foo'' = Inr ([Warning_no_marker ''httpx-foo''], ''httpx-foo'')"
    by code_simp
  moreover have "normalize_url ip6 ''//host/path''
        = Inr ([Warning_no_marker ''https://host/path''], ''https://host/path'')"
    by code_simp
  moreover have "normalize_url ip6 ''ftp://host/x''
        = Inr ([Warning_no_marker ''ftp://host/x''], ''ftp://host/x'')"
    by code_simp
  moreover have "normalize_url ip6 ''img/x.png''
        = Inr ([Warning_no_marker ''https://gameinformer.com/img/x.png''],
               ''https://gameinformer.com/img/x.png'')"
    by code_simp
  ultimately show ?thesis
    by (simp add: normalize_url_def resolve_def base_url_def)
qed

text \<open>The theorem at \<open>httpx-foo\<close> and at \<open>//host/path\<close>.\<close>

theorem resolve_by_http_prefix_witness:
  "prefix ''http'' ''httpx-foo''
   \<and> normalize_url no_ipv6 ''httpx-foo'' = normalize_resolved no_ipv6 ''httpx-foo''
   \<and> \<not> prefix ''http'' ''//host/path''
   \<and> normalize_url no_ipv6 ''//host/path''
        = (case urljoin no_ipv6 ''https://gameinformer.com'' ''//host/path'' of
             Inl e \<Rightarrow> Inl e
           | Inr url \<Rightarrow> normalize_resolved no_ipv6 url)"
proof -
  have 1: "prefix ''http'' ''httpx-foo''" by simp
  have 2: "\<not> prefix ''http'' ''//host/path''" by simp
  from 1 2 resolve_by_http_prefix [of "''httpx-foo''" no_ipv6]
    resolve_by_http_prefix [of "''//host/path''" no_ipv6]
  show ?thesis by blast
qed

subsection \<open>C10: the two suffix tests\<close>

text \<open>
  C10, as amended. The test for \<open>.jpg.webp\<close> distinguishes capitals from small letters.
  When the part of the path that reaches the extension step ends in a spelling of
  \<open>.jpg.webp\<close> other than the one in small letters, the spelling of \<open>.jpg\<close> stays and
  \<open>.jpg.webp\<close> follows it: \<open>foo.JPG.webp\<close> gives \<open>foo.JPG.jpg.webp\<close>, whereas
  \<open>foo.jpg.webp\<close> is left as it is. A spelling of \<open>.webp\<close> that does not follow a
  spelling of \<open>.jpg\<close> is treated like \<open>.webp\<close> in small letters, whatever its
  letter case: it is replaced by \<open>.jpg.webp\<close>.
\<close>

theorem suffix_tests_case_sensitive:
  assumes "parsed_path ip6 u = Inr p" and "path_after_marker p = Inr (s @ v)"
  shows "(map ascii_lower v = ''.jpg.webp'' \<longrightarrow>
            normalize_url ip6 u
              = Inr ([], canonical_prefix @ s
                         @ (if v = ''.jpg.webp'' then ''.jpg.webp'' else take 4 v @ ''.jpg.webp'')))
         \<and> (map ascii_lower v = ''.webp'' \<and> \<not> suffix ''.jpg'' (map ascii_lower s) \<longrightarrow>
            normalize_url ip6 u = Inr ([], canonical_prefix @ s @ ''.jpg.webp''))"
proof -
  have n: "normalize_url ip6 u = Inr ([], canonical_prefix @ normalize_ext (s @ v))"
    using assms by (rule normalize_url_by_path)
  show ?thesis
    unfolding n by (simp add: normalize_ext_jpg_webp_variant normalize_ext_webp_variant)
qed

text \<open>The theorem at \<open>foo.JPG.webp\<close>, \<open>foo.jpg.webp\<close> and \<open>foo.WebP\<close>.\<close>

theorem suffix_tests_case_sensitive_witness:
  "normalize_url no_ipv6 ''https://gameinformer.com/sites/default/files/foo.JPG.webp''
     = Inr ([], ''https://gameinformer.com/sites/default/files/styles/no_compression/public/foo.JPG.jpg.webp'')
   \<and> normalize_url no_ipv6 ''https://gameinformer.com/sites/default/files/foo.jpg.webp''
     = Inr ([], ''https://gameinformer.com/sites/default/files/styles/no_compression/public/foo.jpg.webp'')
   \<and> normalize_url no_ipv6 ''https://gameinformer.com/sites/default/files/foo.WebP''
     = Inr ([], ''https://gameinformer.com/sites/default/files/styles/no_compression/public/foo.jpg.webp'')"
proof -
  have pa: "path_after_marker ''/sites/default/files/foo.JPG.webp'' = Inr (''foo'' @ ''.JPG.webp'')"
    "path_after_marker ''/sites/default/files/foo.jpg.webp'' = Inr (''foo'' @ ''.jpg.webp'')"
    "path_after_marker ''/sites/default/files/foo.WebP'' = Inr (''foo'' @ ''.WebP'')"
    by code_simp+
  have pp: "parsed_path no_ipv6 ''https://gameinformer.com/sites/default/files/foo.JPG.webp''
      = Inr ''/sites/default/files/foo.JPG.webp''"
    "parsed_path no_ipv6 ''https://gameinformer.com/sites/default/files/foo.jpg.webp''
      = Inr ''/sites/default/files/foo.jpg.webp''"
    "parsed_path no_ipv6 ''https://gameinformer.com/sites/default/files/foo.WebP''
      = Inr ''/sites/default/files/foo.WebP''"
    by code_simp+
  have v: "map ascii_lower ''.JPG.webp'' = ''.jpg.webp''" "''.JPG.webp'' \<noteq> ''.jpg.webp''"
    "map ascii_lower ''.jpg.webp'' = ''.jpg.webp''"
    "map ascii_lower ''.WebP'' = ''.webp''" "\<not> suffix ''.jpg'' (map ascii_lower ''foo'')"
    by code_simp+
  show ?thesis
    using suffix_tests_case_sensitive [OF pp(1) pa(1)]
      suffix_tests_case_sensitive [OF pp(2) pa(2)]
      suffix_tests_case_sensitive [OF pp(3) pa(3)] v
    by (simp add: canonical_prefix_def)
qed

text \<open>
  C10 as stated fails for \<open>.webp\<close>: in capitals it is collapsed exactly like \<open>.webp\<close>
  in small letters.
\<close>

theorem uppercase_webp_collapsed:
  "normalize_url no_ipv6 ''https://gameinformer.com/sites/default/files/foo.WEBP''
     = Inr ([], ''https://gameinformer.com/sites/default/files/styles/no_compression/public/foo.jpg.webp'')
   \<and> normalize_url no_ipv6 ''https://gameinformer.com/sites/default/files/foo.webp''
     = Inr ([], ''https://gameinformer.com/sites/default/files/styles/no_compression/public/foo.jpg.webp'')"
  by code_simp

end
